theory Spec2Isabelle
  imports Main "HOL-Library.Sublist"
begin

section \<open>Bytes and the Python values the source compares\<close>

text \<open>
  Python 3 \<open>bytes\<close> are modelled as lists of 8-bit characters. The source (a Python 3
  port: \<open>boundary.encode("utf-8")\<close>, \<open>b"..."\<close> literals) indexes bytes objects, which
  yields an \<open>int\<close>, and compares the result with \<open>bytes\<close> and \<open>str\<close> literals. Such a
  comparison of values of different types is \<open>False\<close> in Python 3, so the three kinds of
  value are kept apart here.
\<close>

type_synonym bytes = "char list"

abbreviation CR :: char where "CR \<equiv> CHR 0x0D"
abbreviation LF :: char where "LF \<equiv> CHR 0x0A"

datatype pyval = PyInt nat | PyBytes bytes | PyStr string

fun py_eq :: "pyval \<Rightarrow> pyval \<Rightarrow> bool" where
  "py_eq (PyInt a) (PyInt b) = (a = b)"
| "py_eq (PyBytes a) (PyBytes b) = (a = b)"
| "py_eq (PyStr a) (PyStr b) = (a = b)"
| "py_eq _ _ = False"

text \<open>\<open>v in (a, b, ...)\<close>: equality with one of the members.\<close>

definition py_in :: "pyval \<Rightarrow> pyval list \<Rightarrow> bool" where
  "py_in v vs = list_ex (py_eq v) vs"

text \<open>\<open>b[0]\<close> on a non-empty bytes object: the integer value of the first byte.\<close>

definition byte_at0 :: "bytes \<Rightarrow> pyval" where
  "byte_at0 b = PyInt (of_char (hd b))"

text \<open>\<open>s.startswith(p)\<close>.\<close>

definition startswith :: "bytes \<Rightarrow> bytes \<Rightarrow> bool" where
  "startswith s p = prefix p s"

text \<open>\<open>s.find(sub)\<close>: the lowest index at which \<open>sub\<close> occurs in \<open>s\<close>, or \<open>-1\<close>.\<close>

fun find_from :: "bytes \<Rightarrow> bytes \<Rightarrow> nat \<Rightarrow> int" where
  "find_from sub [] i = (if sub = [] then int i else - 1)"
| "find_from sub (x # xs) i =
     (if prefix sub (x # xs) then int i else find_from sub xs (Suc i))"

definition py_find :: "bytes \<Rightarrow> bytes \<Rightarrow> int" where
  "py_find s sub = find_from sub s 0"

definition BLOCK_SIZE :: nat where
  "BLOCK_SIZE = 4096"

text \<open>
  \<open>skipLWSPChar\<close>: the loop drops leading bytes while \<open>b[0] in (b" ", b"\t")\<close>. The
  left operand is an \<open>int\<close>, the members of the tuple are \<open>bytes\<close>.
\<close>

fun skipLWSPChar :: "bytes \<Rightarrow> bytes" where
  "skipLWSPChar [] = []"
| "skipLWSPChar (c # cs) =
     (if py_in (byte_at0 (c # cs)) [PyBytes '' '', PyBytes [CHR 0x09]]
      then skipLWSPChar cs else c # cs)"

section \<open>The byte source\<close>

text \<open>
  Modelled from the spec: the Byte Source is \<open>io.BufferedReader\<close> of the Python standard
  library, which is not part of the repository. Its state is the sequence of bytes not
  yet consumed; \<open>read(n)\<close> consumes and returns up to \<open>n\<close> bytes, \<open>peek(n)\<close> returns up
  to \<open>n\<close> bytes without advancing the cursor, \<open>readline()\<close> returns the bytes up to and
  including the next \<open>\n\<close>, or all remaining bytes at the end of the stream (spec 4.1).
  CPython's \<open>peek\<close> returns the bytes it holds in its buffer whatever \<open>n\<close> is; for a
  source with no more than a block left, as in every concrete stream below, both give
  all the remaining bytes.
\<close>

definition br_read :: "nat \<Rightarrow> bytes \<Rightarrow> bytes \<times> bytes" where
  "br_read n s = (take n s, drop n s)"

definition br_peek :: "nat \<Rightarrow> bytes \<Rightarrow> bytes" where
  "br_peek n s = take n s"

fun br_readline :: "bytes \<Rightarrow> bytes \<times> bytes" where
  "br_readline [] = ([], [])"
| "br_readline (c # cs) =
     (if c = LF then ([c], cs)
      else (case br_readline cs of (l, r) \<Rightarrow> (c # l, r)))"

section \<open>Part and MultipartReader state\<close>

text \<open>
  \<open>_Buff\<close> is a read buffer over a bytes object; \<open>read(n)\<close> returns the first \<open>n\<close> bytes
  and keeps the rest, \<open>read()\<close> returns everything and leaves the buffer empty.
\<close>

definition Buff_read :: "nat \<Rightarrow> bytes \<Rightarrow> bytes \<times> bytes" where
  "Buff_read n b = (take n b, drop n b)"

definition Buff_read_all :: "bytes \<Rightarrow> bytes \<times> bytes" where
  "Buff_read_all b = (b, [])"

text \<open>
  A \<open>Part\<close>: the residual buffer, the read counter, the closed flag, and the header lines
  read by \<open>populate_headers\<close> (their parsing into a mapping is done by the \<open>email\<close>
  package and plays no role in the body reader).
\<close>

record part =
  buf :: bytes
  bytes_read :: nat
  header_lines :: "bytes list"
  closed :: bool

text \<open>
  A \<open>MultipartReader\<close>: the byte source (\<open>buf_reader\<close>, the bytes not yet consumed), the
  boundary tokens, the part counter and the current part. The caller's reference to the
  part returned by \<open>next_part\<close> and the reader's \<open>current_part\<close> are the same object, so
  the part lives in the reader's state.
\<close>

record reader =
  buf_reader :: bytes
  nl :: bytes
  nl_dash_boundary :: bytes
  dash_boundary_dash :: bytes
  dash_boundary :: bytes
  dash_boundary_nl :: bytes
  parts_read :: nat
  current_part :: "part option"

text \<open>\<open>MultipartReader.__init__\<close>; \<open>boundary\<close> is the boundary string already encoded.\<close>

definition MultipartReader :: "bytes \<Rightarrow> bytes \<Rightarrow> reader" where
  "MultipartReader stream boundary =
     (let b = [CR, LF] @ ''--'' @ boundary @ ''--'' in
      \<lparr> buf_reader = stream,
        nl = take 2 b,
        nl_dash_boundary = take (length b - 2) b,
        dash_boundary_dash = drop 2 b,
        dash_boundary = drop 2 (take (length b - 2) b),
        dash_boundary_nl = ''--'' @ boundary @ [CR, LF],
        parts_read = 0,
        current_part = None \<rparr>)"

text \<open>\<open>Part.__init__\<close>.\<close>

definition Part :: part where
  "Part = \<lparr> buf = [], bytes_read = 0, header_lines = [], closed = False \<rparr>"

subsection \<open>Line classification\<close>

definition is_final_boundary :: "reader \<Rightarrow> bytes \<Rightarrow> bool" where
  "is_final_boundary mr line =
     (if \<not> startswith line (dash_boundary_dash mr) then False else True)"

text \<open>
  \<open>is_boundary_delimeter_line\<close> may shrink \<open>nl\<close> and \<open>nl_dash_boundary\<close>, so it returns
  the reader as well. The guard of the shrink compares \<open>rest[0]\<close> (an \<open>int\<close>) with the
  \<open>str\<close> literal \<open>"\n"\<close>.
\<close>

definition is_boundary_delimeter_line :: "reader \<Rightarrow> bytes \<Rightarrow> bool \<times> reader" where
  "is_boundary_delimeter_line mr line =
     (if startswith line (dash_boundary mr) then
        (let rest = skipLWSPChar (drop (length (dash_boundary mr)) line);
             mr' = (if parts_read mr = 0 \<and> length rest = 1
                       \<and> py_eq (byte_at0 rest) (PyStr [LF])
                    then mr\<lparr> nl := drop 1 (nl mr),
                             nl_dash_boundary := drop 1 (nl_dash_boundary mr) \<rparr>
                    else mr)
         in (rest = nl mr', mr'))
      else (False, mr))"

definition peek_buffer_is_empty_part :: "reader \<Rightarrow> bytes \<Rightarrow> bool" where
  "peek_buffer_is_empty_part mr peek =
     (if startswith peek (dash_boundary_dash mr) then
        (let rest = skipLWSPChar (drop (length (dash_boundary_dash mr)) peek)
         in startswith rest (nl mr) \<or> length rest = 0)
      else if \<not> startswith peek (dash_boundary mr) then False
      else
        (let rest = skipLWSPChar (drop (length (dash_boundary mr)) peek)
         in startswith rest (nl mr)))"

subsection \<open>The part body reader\<close>

text \<open>
  \<open>data = p.mr.buf_reader.read(k); p.buf = _Buff(p.buf.read() + data)\<close>: \<open>k\<close> bytes move
  from the byte source to the end of the residual buffer.
\<close>

definition pull :: "nat \<Rightarrow> part \<Rightarrow> reader \<Rightarrow> part \<times> reader" where
  "pull k p mr =
     (case br_read k (buf_reader mr) of (data, s') \<Rightarrow>
        (p\<lparr> buf := fst (Buff_read_all (buf p)) @ data \<rparr>, mr\<lparr> buf_reader := s' \<rparr>))"

text \<open>
  The search for the boundary in the peeked window and the consumption that follows it
  (the body of \<open>_PartReader.read\<close> between the empty-part test and the final slice).
\<close>

definition fill_buffer :: "bytes \<Rightarrow> part \<Rightarrow> reader \<Rightarrow> part \<times> reader" where
  "fill_buffer peek p mr =
     (let idx = py_find peek (dash_boundary mr);
          safe_count = int (length peek) - int (length (dash_boundary mr));
          n_copy = (if idx \<noteq> - 1 then idx
                    else if safe_count > 0 then safe_count
                    else 0);
          pm1 = (if idx \<noteq> - 1 then (p, mr)
                 else if safe_count > 0 then (p, mr)
                 else if idx = - 1 \<and> safe_count = 0 then pull (length peek) p mr
                 else (p, mr))
      in if n_copy > 0 then pull (nat n_copy) (fst pm1) (snd pm1) else pm1)"

text \<open>
  \<open>_PartReader.read(d)\<close>. The function mutates the part and the reader's byte source and
  returns the bytes read, so the model returns all three. The local \<open>n\<close> starts as the
  empty string; the \<open>finally\<close> clause adds \<open>len(n)\<close> to \<open>bytes_read\<close> on every way out,
  and only the last \<open>return\<close> assigns \<open>n\<close> before leaving.
\<close>

definition PartReader_read :: "nat \<Rightarrow> part \<Rightarrow> reader \<Rightarrow> bytes \<times> part \<times> reader" where
  "PartReader_read d p mr =
     (let n0 = ([] :: bytes) in
      if length (buf p) \<ge> d then
        (case Buff_read d (buf p) of (ret, b') \<Rightarrow>
           (ret, p\<lparr> buf := b', bytes_read := bytes_read p + length n0 \<rparr>, mr))
      else
        (let peek = br_peek BLOCK_SIZE (buf_reader mr) in
         if bytes_read p = 0 \<and> peek_buffer_is_empty_part mr peek then
           ([], p\<lparr> bytes_read := bytes_read p + length n0 \<rparr>, mr)
         else
           (case fill_buffer peek p mr of (p2, mr2) \<Rightarrow>
              (case Buff_read d (buf p2) of (n, b') \<Rightarrow>
                 (n, p2\<lparr> buf := b', bytes_read := bytes_read p2 + length n \<rparr>, mr2)))))"

subsection \<open>What one read takes from the byte source\<close>

lemma find_from_lower: "find_from sub s i = - 1 \<or> int i \<le> find_from sub s i"
  by (induction sub s i rule: find_from.induct) auto

lemma find_from_upper:
  "find_from sub s i \<noteq> - 1 \<Longrightarrow>
   find_from sub s i + int (length sub) \<le> int i + int (length s)"
proof (induction sub s i rule: find_from.induct)
  case (1 sub i)
  then show ?case by (auto split: if_splits)
next
  case (2 sub x xs i)
  then show ?case by (auto split: if_splits dest: prefix_length_le)
qed

lemma py_find_bounds:
  "py_find s sub \<noteq> - 1 \<Longrightarrow>
   0 \<le> py_find s sub \<and> py_find s sub + int (length sub) \<le> int (length s)"
  using find_from_lower[of sub s 0] find_from_upper[of sub s 0]
  by (auto simp: py_find_def)

lemma py_find_prefix: "prefix sub s \<Longrightarrow> py_find s sub = 0"
  by (cases s) (simp_all add: py_find_def)

text \<open>The number of bytes that \<open>fill_buffer\<close> consumes, as a function of the reader.\<close>

definition n_consume :: "reader \<Rightarrow> nat" where
  "n_consume mr =
     (let peek = br_peek BLOCK_SIZE (buf_reader mr);
          idx = py_find peek (dash_boundary mr)
      in if idx \<noteq> - 1 then nat idx
         else if length peek > length (dash_boundary mr)
           then length peek - length (dash_boundary mr)
         else if length peek = length (dash_boundary mr) then length peek
         else 0)"

lemma n_consume_le_peek: "n_consume mr \<le> length (br_peek BLOCK_SIZE (buf_reader mr))"
  using py_find_bounds[of "br_peek BLOCK_SIZE (buf_reader mr)" "dash_boundary mr"]
  by (auto simp: n_consume_def Let_def)

lemma n_consume_le: "n_consume mr \<le> length (buf_reader mr)"
  using n_consume_le_peek[of mr] by (simp add: br_peek_def)

lemma pull_eq:
  "pull k p mr =
     (p\<lparr> buf := buf p @ take k (buf_reader mr) \<rparr>, mr\<lparr> buf_reader := drop k (buf_reader mr) \<rparr>)"
  by (simp add: pull_def br_read_def Buff_read_all_def)

lemma pull_0: "pull 0 p mr = (p, mr)"
  by (simp add: pull_eq)

lemma fill_buffer_eq:
  "fill_buffer (br_peek BLOCK_SIZE (buf_reader mr)) p mr = pull (n_consume mr) p mr"
proof -
  let ?peek = "br_peek BLOCK_SIZE (buf_reader mr)"
  let ?idx = "py_find ?peek (dash_boundary mr)"
  let ?sc = "int (length ?peek) - int (length (dash_boundary mr))"
  consider (found) "?idx \<noteq> - 1" | (safe) "?idx = - 1" "?sc > 0"
    | (same) "?idx = - 1" "?sc = 0" | (short) "?idx = - 1" "?sc < 0"
    by linarith
  then show ?thesis
  proof cases
    case found
    then have "0 \<le> ?idx" using py_find_bounds by blast
    then show ?thesis
      using found
      by (cases "?idx = 0") (simp_all add: fill_buffer_def n_consume_def Let_def pull_0)
  next
    case safe
    then have "nat ?sc = length ?peek - length (dash_boundary mr)" by linarith
    then show ?thesis
      using safe by (simp add: fill_buffer_def n_consume_def Let_def)
  next
    case same
    then show ?thesis
      by (simp add: fill_buffer_def n_consume_def Let_def)
  next
    case short
    then show ?thesis
      by (simp add: fill_buffer_def n_consume_def Let_def pull_0)
  qed
qed

text \<open>The three ways through \<open>_PartReader.read\<close>.\<close>

lemma PartReader_read_buffered:
  "d \<le> length (buf p) \<Longrightarrow>
   PartReader_read d p mr = (take d (buf p), p\<lparr> buf := drop d (buf p) \<rparr>, mr)"
  by (simp add: PartReader_read_def Buff_read_def)

lemma PartReader_read_empty_part:
  "length (buf p) < d \<Longrightarrow> bytes_read p = 0 \<Longrightarrow>
   peek_buffer_is_empty_part mr (br_peek BLOCK_SIZE (buf_reader mr)) \<Longrightarrow>
   PartReader_read d p mr = ([], p, mr)"
  by (simp add: PartReader_read_def)

lemma PartReader_read_fill:
  assumes "length (buf p) < d"
    and "\<not> (bytes_read p = 0
            \<and> peek_buffer_is_empty_part mr (br_peek BLOCK_SIZE (buf_reader mr)))"
  shows "PartReader_read d p mr =
     (take d (buf p @ take (n_consume mr) (buf_reader mr)),
      p\<lparr> buf := drop d (buf p @ take (n_consume mr) (buf_reader mr)),
         bytes_read := bytes_read p
            + length (take d (buf p @ take (n_consume mr) (buf_reader mr))) \<rparr>,
      mr\<lparr> buf_reader := drop (n_consume mr) (buf_reader mr) \<rparr>)"
proof -
  have "PartReader_read d p mr =
      (case fill_buffer (br_peek BLOCK_SIZE (buf_reader mr)) p mr of (p2, mr2) \<Rightarrow>
         (case Buff_read d (buf p2) of (n, b') \<Rightarrow>
            (n, p2\<lparr> buf := b', bytes_read := bytes_read p2 + length n \<rparr>, mr2)))"
    using assms by (auto simp: PartReader_read_def Let_def)
  then show ?thesis
    by (simp add: fill_buffer_eq pull_eq Buff_read_def)
qed

text \<open>
  Every call hands out bytes it takes from the buffer or from the byte source, so the
  bytes still held by both shrink by the length of what is returned. The drain loops
  below terminate for this reason.
\<close>

lemma PartReader_read_measure:
  assumes "PartReader_read d p mr = (n, p', mr')"
  shows "length (buf p') + length (buf_reader mr') + length n
         = length (buf p) + length (buf_reader mr)"
proof -
  consider (buffered) "d \<le> length (buf p)"
    | (empty_part) "length (buf p) < d" "bytes_read p = 0"
        "peek_buffer_is_empty_part mr (br_peek BLOCK_SIZE (buf_reader mr))"
    | (fill) "length (buf p) < d"
        "\<not> (bytes_read p = 0
            \<and> peek_buffer_is_empty_part mr (br_peek BLOCK_SIZE (buf_reader mr)))"
    by fastforce
  then show ?thesis
  proof cases
    case buffered
    from PartReader_read_buffered[OF this, of mr] assms show ?thesis by auto
  next
    case empty_part
    from PartReader_read_empty_part[OF this] assms show ?thesis by auto
  next
    case fill
    from PartReader_read_fill[OF this] assms n_consume_le[of mr] show ?thesis by auto
  qed
qed

subsection \<open>Part.read and Part.close\<close>

datatype error =
    IOError_Part_already_closed
  | Exception_expecting_a_new_Part bytes
  | Exception_Unexpected_line bytes

text \<open>The loop of \<open>Part.read()\<close> without a length: block-sized reads until one is empty.\<close>

function read_all :: "bytes \<Rightarrow> part \<Rightarrow> reader \<Rightarrow> bytes \<times> part \<times> reader" where
  "read_all data p mr =
     (case PartReader_read BLOCK_SIZE p mr of (chunk, p', mr') \<Rightarrow>
        if chunk = [] \<or> length chunk = 0 then (data, p', mr')
        else read_all (data @ chunk) p' mr')"
  by pat_completeness auto
termination
proof (relation "measure (\<lambda>(data, p, mr). length (buf p) + length (buf_reader mr))",
    goal_cases)
  case 1
  show ?case by simp
next
  case (2 data p mr chunk y p' mr')
  then have r: "PartReader_read BLOCK_SIZE p mr = (chunk, p', mr')" and ne: "chunk \<noteq> []"
    by auto
  from PartReader_read_measure[OF r] ne show ?case by (cases chunk) auto
qed

text \<open>\<open>Part.read(d)\<close>; \<open>d = None\<close> is the call without a length.\<close>

definition Part_read :: "nat option \<Rightarrow> part \<Rightarrow> reader \<Rightarrow> error + (bytes \<times> part \<times> reader)" where
  "Part_read d p mr =
     (if closed p then Inl IOError_Part_already_closed
      else (case d of
              None \<Rightarrow> Inr (read_all [] p mr)
            | Some n \<Rightarrow> Inr (PartReader_read n p mr)))"

text \<open>The loop of \<open>Part.close()\<close>: it calls \<open>self.read(BLOCK_SIZE)\<close> until a chunk is empty.\<close>

function close_loop :: "part \<Rightarrow> reader \<Rightarrow> error + (part \<times> reader)" where
  "close_loop p mr =
     (case Part_read (Some BLOCK_SIZE) p mr of
        Inl e \<Rightarrow> Inl e
      | Inr (chunk, p', mr') \<Rightarrow>
          if chunk = [] \<or> length chunk = 0 then Inr (p', mr')
          else close_loop p' mr')"
  by pat_completeness auto
termination
proof (relation "measure (\<lambda>(p, mr). length (buf p) + length (buf_reader mr))", goal_cases)
  case 1
  show ?case by simp
next
  case (2 p mr x chunk y p' mr')
  then have r: "PartReader_read BLOCK_SIZE p mr = (chunk, p', mr')" and ne: "chunk \<noteq> []"
    by (auto simp: Part_read_def split: if_splits)
  from PartReader_read_measure[OF r] ne show ?case by (cases chunk) auto
qed

definition Part_close :: "part \<Rightarrow> reader \<Rightarrow> error + (part \<times> reader)" where
  "Part_close p mr =
     (case close_loop p mr of
        Inl e \<Rightarrow> Inl e
      | Inr (p', mr') \<Rightarrow> Inr (p'\<lparr> closed := True \<rparr>, mr'))"

subsection \<open>Headers\<close>

lemma br_readline_length:
  "length (fst (br_readline s)) + length (snd (br_readline s)) = length s"
  by (induction s) (auto split: prod.splits)

text \<open>
  \<open>populate_headers\<close> reads lines up to the first line that is \<open>b"\r\n"\<close>, \<open>b"\n"\<close> or
  empty (the end of the stream) and keeps the lines before it.
\<close>

function populate_headers_loop :: "bytes list \<Rightarrow> bytes \<Rightarrow> bytes list \<times> bytes" where
  "populate_headers_loop hl s =
     (case br_readline s of (line, s') \<Rightarrow>
        if line \<in> set [[CR, LF], [LF], []] then (hl, s')
        else populate_headers_loop (hl @ [line]) s')"
  by pat_completeness auto
termination
proof (relation "measure (\<lambda>(hl, s). length s)", goal_cases)
  case 1
  show ?case by simp
next
  case (2 hl s line s')
  then have "fst (br_readline s) \<noteq> []" and "snd (br_readline s) = s'"
    by (auto simp: eq_snd_iff dest: sym)
  with br_readline_length[of s] show ?case by (cases "fst (br_readline s)") auto
qed

definition populate_headers :: "part \<Rightarrow> reader \<Rightarrow> part \<times> reader" where
  "populate_headers p mr =
     (case populate_headers_loop [] (buf_reader mr) of (hl, s') \<Rightarrow>
        (p\<lparr> header_lines := hl \<rparr>, mr\<lparr> buf_reader := s' \<rparr>))"

definition new_part :: "reader \<Rightarrow> part \<times> reader" where
  "new_part mr = populate_headers Part mr"

subsection \<open>MultipartReader.next_part\<close>

text \<open>
  What a call of \<open>next_part\<close> does: it returns a new part (which is then the reader's
  \<open>current_part\<close>), returns \<open>None\<close>, or raises. The loop has no bound of its own, so its
  model is a partial function: \<open>None\<close> of the option type means that the call does not
  return.
\<close>

datatype outcome = NewPart | Terminal | Raised error

partial_function (option) next_part_loop :: "bool \<Rightarrow> reader \<Rightarrow> (outcome \<times> reader) option" where
  "next_part_loop expect_new_part mr =
     (case br_readline (buf_reader mr) of (line, s') \<Rightarrow>
        (let mr1 = mr\<lparr> buf_reader := s' \<rparr>;
             is_EOF = br_peek 1 (buf_reader mr1)
         in if length is_EOF = 0 \<and> is_final_boundary mr1 line then Some (Terminal, mr1)
            else
              (case is_boundary_delimeter_line mr1 line of (is_delim, mr2) \<Rightarrow>
                 if is_delim then
                   (case new_part (mr2\<lparr> parts_read := parts_read mr2 + 1 \<rparr>) of (bp, mr3) \<Rightarrow>
                      Some (NewPart, mr3\<lparr> current_part := Some bp \<rparr>))
                 else if is_final_boundary mr2 line then Some (Terminal, mr2)
                 else if expect_new_part then
                   Some (Raised (Exception_expecting_a_new_Part line), mr2)
                 else if parts_read mr2 = 0 then next_part_loop expect_new_part mr2
                 else if line = nl mr2 then next_part_loop True mr2
                 else Some (Raised (Exception_Unexpected_line line), mr2))))"

definition next_part :: "reader \<Rightarrow> (outcome \<times> reader) option" where
  "next_part mr =
     (case current_part mr of
        None \<Rightarrow> next_part_loop False mr
      | Some cp \<Rightarrow>
          (case Part_close cp mr of
             Inl e \<Rightarrow> Some (Raised e, mr)
           | Inr (cp', mr') \<Rightarrow> next_part_loop False (mr'\<lparr> current_part := Some cp' \<rparr>)))"

section \<open>Usage errors of Part.read\<close>

text \<open>
  C4. \<open>Part.read\<close>, with or without a length, raises the usage error
  (\<open>IOError("Part already closed")\<close>) exactly when the part is closed; on a part that is
  not closed it raises nothing and returns bytes.
\<close>

theorem Part_read_raises_iff_closed:
  "(Part_read d p mr = Inl IOError_Part_already_closed) = closed p
   \<and> (\<exists>e. Part_read d p mr = Inl e) = closed p"
  by (cases d) (simp_all add: Part_read_def)

section \<open>The boundary tokens of a reader\<close>

text \<open>
  In Python 3 neither comparison in \<open>skipLWSPChar\<close> and \<open>is_boundary_delimeter_line\<close>
  can hold, so no whitespace is skipped and the newline tokens are never shortened.
\<close>

lemma skipLWSPChar_id: "skipLWSPChar b = b"
  by (cases b) (simp_all add: py_in_def byte_at0_def)

lemma is_boundary_delimeter_line_eq:
  "is_boundary_delimeter_line mr line =
     (prefix (dash_boundary mr) line \<and> drop (length (dash_boundary mr)) line = nl mr, mr)"
  by (simp add: is_boundary_delimeter_line_def startswith_def skipLWSPChar_id byte_at0_def Let_def)

text \<open>The tokens that \<open>__init__\<close> derives from a boundary string.\<close>

definition has_boundary :: "reader \<Rightarrow> bytes \<Rightarrow> bool" where
  "has_boundary mr boundary =
     (nl mr = [CR, LF]
      \<and> nl_dash_boundary mr = [CR, LF] @ ''--'' @ boundary
      \<and> dash_boundary_dash mr = ''--'' @ boundary @ ''--''
      \<and> dash_boundary mr = ''--'' @ boundary
      \<and> dash_boundary_nl mr = ''--'' @ boundary @ [CR, LF])"

lemma has_boundary_MultipartReader: "has_boundary (MultipartReader stream boundary) boundary"
  by (simp add: has_boundary_def MultipartReader_def Let_def)

lemma has_boundary_final:
  "has_boundary mr boundary \<Longrightarrow> dash_boundary_dash mr = dash_boundary mr @ ''--''"
  by (simp add: has_boundary_def)

lemma empty_part_prefix:
  assumes "has_boundary mr boundary" "peek_buffer_is_empty_part mr peek"
  shows "prefix (dash_boundary mr) peek"
proof (cases "startswith peek (dash_boundary_dash mr)")
  case True
  then have "prefix (dash_boundary mr @ ''--'') peek"
    using has_boundary_final[OF assms(1)] by (simp add: startswith_def)
  then show ?thesis by (rule append_prefixD)
next
  case False
  with assms(2) show ?thesis
    by (simp add: peek_buffer_is_empty_part_def startswith_def split: if_splits)
qed

section \<open>Empty-body parts\<close>

lemma prefix_take: "prefix a s \<Longrightarrow> length a \<le> k \<Longrightarrow> prefix a (take k s)"
  by (auto simp: prefix_def)

lemma n_consume_at_boundary:
  assumes "prefix (dash_boundary mr) (buf_reader mr)"
  shows "n_consume mr = 0"
proof (cases "length (dash_boundary mr) \<le> BLOCK_SIZE")
  case True
  then have "prefix (dash_boundary mr) (br_peek BLOCK_SIZE (buf_reader mr))"
    using assms by (simp add: br_peek_def prefix_take)
  then show ?thesis by (simp add: n_consume_def py_find_prefix)
next
  case False
  then have short: "length (br_peek BLOCK_SIZE (buf_reader mr)) < length (dash_boundary mr)"
    by (simp add: br_peek_def)
  then have "py_find (br_peek BLOCK_SIZE (buf_reader mr)) (dash_boundary mr) = - 1"
    using py_find_bounds[of "br_peek BLOCK_SIZE (buf_reader mr)" "dash_boundary mr"] by linarith
  with short show ?thesis by (simp add: n_consume_def)
qed

lemma PartReader_read_at_boundary:
  assumes "buf p = []" "0 < d" "prefix (dash_boundary mr) (buf_reader mr)"
  shows "PartReader_read d p mr = ([], p, mr)"
proof (cases "bytes_read p = 0
    \<and> peek_buffer_is_empty_part mr (br_peek BLOCK_SIZE (buf_reader mr))")
  case True
  then show ?thesis using assms by (simp add: PartReader_read_empty_part)
next
  case False
  have "length (buf p) < d" using assms by simp
  from PartReader_read_fill[OF this False] show ?thesis
    using assms by (simp add: n_consume_at_boundary)
qed

text \<open>
  C7. A part that has returned no body bytes yet (empty buffer, counter zero) and whose
  header block is followed at once by a delimiter line or by the final boundary line,
  that is, the byte source starts with the delimiter token: \<open>read()\<close> returns the
  empty bytes and leaves the part and the byte source as they were.
\<close>

theorem empty_body_read:
  assumes "\<not> closed p" and "buf p = []" and "bytes_read p = 0"
    and "startswith (buf_reader mr) (dash_boundary mr)"
  shows "Part_read None p mr = Inr ([], p, mr)"
proof -
  have "PartReader_read BLOCK_SIZE p mr = ([], p, mr)"
    using assms by (intro PartReader_read_at_boundary) (simp_all add: startswith_def BLOCK_SIZE_def)
  then have "read_all [] p mr = ([], p, mr)" by simp
  with assms(1) show ?thesis by (simp add: Part_read_def)
qed

section \<open>Part.close\<close>

lemma PartReader_read_closed:
  "PartReader_read d p mr = (n, p', mr') \<Longrightarrow> closed p' = closed p"
proof -
  assume a: "PartReader_read d p mr = (n, p', mr')"
  consider (buffered) "d \<le> length (buf p)"
    | (empty_part) "length (buf p) < d" "bytes_read p = 0"
        "peek_buffer_is_empty_part mr (br_peek BLOCK_SIZE (buf_reader mr))"
    | (fill) "length (buf p) < d"
        "\<not> (bytes_read p = 0
            \<and> peek_buffer_is_empty_part mr (br_peek BLOCK_SIZE (buf_reader mr)))"
    by fastforce
  then show ?thesis
  proof cases
    case buffered
    from PartReader_read_buffered[OF this, of mr] a show ?thesis by auto
  next
    case empty_part
    from PartReader_read_empty_part[OF this] a show ?thesis by auto
  next
    case fill
    from PartReader_read_fill[OF this] a show ?thesis by auto
  qed
qed

lemma close_loop_open:
  "\<not> closed p \<Longrightarrow> \<exists>p' mr'. close_loop p mr = Inr (p', mr') \<and> \<not> closed p'"
proof (induction p mr rule: close_loop.induct)
  case (1 p mr)
  obtain chunk p1 mr1 where r: "PartReader_read BLOCK_SIZE p mr = (chunk, p1, mr1)"
    by (cases "PartReader_read BLOCK_SIZE p mr") auto
  have pr: "Part_read (Some BLOCK_SIZE) p mr = Inr (chunk, p1, mr1)"
    using 1(2) r by (simp add: Part_read_def)
  have c1: "\<not> closed p1" using PartReader_read_closed[OF r] 1(2) by simp
  show ?case
  proof (cases "chunk = [] \<or> length chunk = 0")
    case True
    then show ?thesis using pr c1 by (subst close_loop.simps) simp
  next
    case False
    from 1(1)[OF pr refl refl False c1] obtain p' mr'
      where "close_loop p1 mr1 = Inr (p', mr')" "\<not> closed p'" by blast
    then show ?thesis using pr False by (subst close_loop.simps) simp
  qed
qed

lemma Part_close_closed: "closed p \<Longrightarrow> Part_close p mr = Inl IOError_Part_already_closed"
  by (subst Part_close_def, subst close_loop.simps) (simp add: Part_read_def)

text \<open>
  C3, as amended. \<open>close()\<close> on a closed part raises the usage error, since it calls
  \<open>self.read\<close>, which tests the flag before anything else; so the part and the byte
  source stay as they were. \<open>close()\<close> on an open part returns with the part marked
  closed, and a second \<open>close()\<close> then raises the usage error.
\<close>

theorem close_once_then_usage_error:
  "(closed p \<longrightarrow> Part_close p mr = Inl IOError_Part_already_closed)
   \<and> (\<not> closed p \<longrightarrow>
        (\<exists>p' mr'. Part_close p mr = Inr (p', mr') \<and> closed p'
           \<and> Part_close p' mr' = Inl IOError_Part_already_closed))"
proof (intro conjI impI)
  assume "closed p"
  then show "Part_close p mr = Inl IOError_Part_already_closed" by (rule Part_close_closed)
next
  assume "\<not> closed p"
  from close_loop_open[OF this, of mr] obtain p1 mr1
    where "close_loop p mr = Inr (p1, mr1)" by blast
  then have "Part_close p mr = Inr (p1\<lparr>closed := True\<rparr>, mr1)"
    by (simp add: Part_close_def)
  moreover have "Part_close (p1\<lparr>closed := True\<rparr>) mr1 = Inl IOError_Part_already_closed"
    by (simp add: Part_close_closed)
  ultimately show "\<exists>p' mr'. Part_close p mr = Inr (p', mr') \<and> closed p'
           \<and> Part_close p' mr' = Inl IOError_Part_already_closed"
    by simp
qed


section \<open>The safety margin of the body reader\<close>

lemma find_from_first:
  "prefix sub (drop j s) \<Longrightarrow>
   find_from sub s i \<noteq> - 1 \<and> find_from sub s i \<le> int i + int j"
proof (induction sub s i arbitrary: j rule: find_from.induct)
  case (1 sub i)
  then show ?case by simp
next
  case (2 sub x xs i)
  show ?case
  proof (cases "prefix sub (x # xs)")
    case True
    then show ?thesis by simp
  next
    case False
    with 2(2) obtain j' where j: "j = Suc j'" by (cases j) auto
    with 2(2) have "prefix sub (drop j' xs)" by simp
    from 2(1)[OF False this] show ?thesis using False j by simp
  qed
qed

lemma py_find_first:
  "prefix sub (drop j s) \<Longrightarrow> py_find s sub \<noteq> - 1 \<and> py_find s sub \<le> int j"
  using find_from_first[of sub j s 0] by (simp add: py_find_def)

lemma occurrence_in_window:
  assumes "prefix tok (drop j s)" and "j + length tok \<le> k"
  shows "prefix tok (drop j (take k s))"
proof -
  have "drop j (take k s) = take (k - j) (drop j s)" by (simp add: drop_take)
  moreover have "length tok \<le> k - j" using assms(2) by simp
  ultimately show ?thesis using assms(1) by (simp add: prefix_take)
qed

text \<open>The delimiter token occurs in the byte source at offset \<open>j\<close> from the cursor.\<close>

definition token_at :: "reader \<Rightarrow> nat \<Rightarrow> bool" where
  "token_at mr j = prefix (dash_boundary mr) (drop j (buf_reader mr))"

lemma n_consume_before_token:
  assumes occ: "token_at mr j"
    and c: "py_find (br_peek BLOCK_SIZE (buf_reader mr)) (dash_boundary mr) \<noteq> - 1
            \<or> length (dash_boundary mr) < length (br_peek BLOCK_SIZE (buf_reader mr))"
  shows "n_consume mr \<le> j"
proof -
  let ?tok = "dash_boundary mr"
  let ?peek = "br_peek BLOCK_SIZE (buf_reader mr)"
  let ?idx = "py_find ?peek ?tok"
  have len: "length ?peek \<le> BLOCK_SIZE" by (simp add: br_peek_def)
  show ?thesis
  proof (cases "j + length ?tok \<le> BLOCK_SIZE")
    case True
    with occ have "prefix ?tok (drop j ?peek)"
      by (simp add: token_at_def br_peek_def occurrence_in_window)
    from py_find_first[OF this] show ?thesis by (auto simp: n_consume_def)
  next
    case False
    show ?thesis
    proof (cases "?idx = - 1")
      case True
      with c have "length ?tok < length ?peek" by simp
      then show ?thesis using True False len by (simp add: n_consume_def)
    next
      case neq: False
      from py_find_bounds[OF this] False len
      have "nat ?idx \<le> j" by linarith
      then show ?thesis using neq by (simp add: n_consume_def)
    qed
  qed
qed

text \<open>
  What a call has taken from the byte source: the source lost its first \<open>k\<close> bytes, and
  the bytes returned followed by the buffer afterwards are the buffer before followed
  by these \<open>k\<close> bytes.
\<close>

definition consumed_into_buffer ::
  "nat \<Rightarrow> part \<Rightarrow> reader \<Rightarrow> bytes \<Rightarrow> part \<Rightarrow> reader \<Rightarrow> bool" where
  "consumed_into_buffer k p mr n p' mr' =
     (buf_reader mr' = drop k (buf_reader mr)
      \<and> n @ buf p' = buf p @ take k (buf_reader mr))"

lemma PartReader_read_consumes:
  assumes hb: "has_boundary mr boundary" and lt: "length (buf p) < d"
    and r: "PartReader_read d p mr = (n, p', mr')"
  shows "consumed_into_buffer (n_consume mr) p mr n p' mr'"
proof (cases "bytes_read p = 0
    \<and> peek_buffer_is_empty_part mr (br_peek BLOCK_SIZE (buf_reader mr))")
  case True
  then have "prefix (dash_boundary mr) (br_peek BLOCK_SIZE (buf_reader mr))"
    using empty_part_prefix[OF hb] by blast
  then have "n_consume mr = 0" by (simp add: n_consume_def py_find_prefix)
  moreover have "PartReader_read d p mr = ([], p, mr)"
    using True lt by (simp add: PartReader_read_empty_part)
  ultimately show ?thesis using r by (simp add: consumed_into_buffer_def)
next
  case False
  let ?b = "buf p @ take (n_consume mr) (buf_reader mr)"
  from PartReader_read_fill[OF lt False] r
  have "(n, p', mr') =
      (take d ?b, p\<lparr> buf := drop d ?b, bytes_read := bytes_read p + length (take d ?b) \<rparr>,
       mr\<lparr> buf_reader := drop (n_consume mr) (buf_reader mr) \<rparr>)"
    by (simp only:)
  then have "n = take d ?b" and "buf p' = drop d ?b"
    and "buf_reader mr' = drop (n_consume mr) (buf_reader mr)"
    by (simp_all del: take_append drop_append)
  then show ?thesis
    by (simp add: consumed_into_buffer_def del: take_append drop_append)
qed

text \<open>
  C6. A read that goes to the stream (the buffer holds fewer than \<open>d\<close> bytes). If the
  delimiter token is found in the peeked window at offset \<open>idx\<close>, exactly \<open>idx\<close> bytes go
  from the byte source to the residual buffer. If it is not found and the window is
  longer than the token, exactly \<open>len(window) - len(token)\<close> bytes do. In both cases
  every occurrence of the delimiter token in the byte source starts at or after the end
  of what was consumed, so none of its bytes enters the buffer.
\<close>

theorem safety_margin_consumption:
  assumes "has_boundary mr boundary" and "length (buf p) < d"
    and "PartReader_read d p mr = (n, p', mr')"
  shows "(py_find (br_peek BLOCK_SIZE (buf_reader mr)) (dash_boundary mr) \<noteq> - 1 \<longrightarrow>
            consumed_into_buffer
              (nat (py_find (br_peek BLOCK_SIZE (buf_reader mr)) (dash_boundary mr)))
              p mr n p' mr'
            \<and> (\<forall>j. token_at mr j \<longrightarrow>
                  nat (py_find (br_peek BLOCK_SIZE (buf_reader mr)) (dash_boundary mr)) \<le> j))
       \<and> (py_find (br_peek BLOCK_SIZE (buf_reader mr)) (dash_boundary mr) = - 1
            \<and> length (dash_boundary mr) < length (br_peek BLOCK_SIZE (buf_reader mr)) \<longrightarrow>
            consumed_into_buffer
              (length (br_peek BLOCK_SIZE (buf_reader mr)) - length (dash_boundary mr))
              p mr n p' mr'
            \<and> (\<forall>j. token_at mr j \<longrightarrow>
                  length (br_peek BLOCK_SIZE (buf_reader mr)) - length (dash_boundary mr) \<le> j))"
proof (intro conjI impI allI)
  assume f: "py_find (br_peek BLOCK_SIZE (buf_reader mr)) (dash_boundary mr) \<noteq> - 1"
  then have k: "n_consume mr
      = nat (py_find (br_peek BLOCK_SIZE (buf_reader mr)) (dash_boundary mr))"
    by (simp add: n_consume_def)
  show "consumed_into_buffer
      (nat (py_find (br_peek BLOCK_SIZE (buf_reader mr)) (dash_boundary mr))) p mr n p' mr'"
    using PartReader_read_consumes[OF assms] k by simp
  fix j
  assume "token_at mr j"
  from n_consume_before_token[OF this] f k
  show "nat (py_find (br_peek BLOCK_SIZE (buf_reader mr)) (dash_boundary mr)) \<le> j"
    by simp
next
  assume nf: "py_find (br_peek BLOCK_SIZE (buf_reader mr)) (dash_boundary mr) = - 1
      \<and> length (dash_boundary mr) < length (br_peek BLOCK_SIZE (buf_reader mr))"
  then have k: "n_consume mr
      = length (br_peek BLOCK_SIZE (buf_reader mr)) - length (dash_boundary mr)"
    by (simp add: n_consume_def)
  show "consumed_into_buffer
      (length (br_peek BLOCK_SIZE (buf_reader mr)) - length (dash_boundary mr)) p mr n p' mr'"
    using PartReader_read_consumes[OF assms] k by simp
  fix j
  assume "token_at mr j"
  from n_consume_before_token[OF this] nf k
  show "length (br_peek BLOCK_SIZE (buf_reader mr)) - length (dash_boundary mr) \<le> j"
    by simp
qed

section \<open>Chunk-size independence\<close>

text \<open>
  The caller's loop that reads a body byte by byte: \<open>part.read(1)\<close> until a call returns
  nothing, the results concatenated.
\<close>

function read_by_ones :: "bytes \<Rightarrow> part \<Rightarrow> reader \<Rightarrow> error + (bytes \<times> part \<times> reader)" where
  "read_by_ones data p mr =
     (case Part_read (Some 1) p mr of
        Inl e \<Rightarrow> Inl e
      | Inr (chunk, p', mr') \<Rightarrow>
          if chunk = [] then Inr (data, p', mr')
          else read_by_ones (data @ chunk) p' mr')"
  by pat_completeness auto
termination
proof (relation "measure (\<lambda>(data, p, mr). length (buf p) + length (buf_reader mr))",
    goal_cases)
  case 1
  show ?case by simp
next
  case (2 data p mr x chunk y p' mr')
  then have r: "PartReader_read 1 p mr = (chunk, p', mr')" and ne: "chunk \<noteq> []"
    by (auto simp: Part_read_def split: if_splits)
  from PartReader_read_measure[OF r] ne show ?case by (cases chunk) auto
qed

text \<open>
  The bytes that successive fills take from the byte source, up to the first fill that
  takes nothing.
\<close>

function stream_body :: "reader \<Rightarrow> bytes" where
  "stream_body mr =
     (if n_consume mr = 0 then []
      else take (n_consume mr) (buf_reader mr)
           @ stream_body (mr\<lparr> buf_reader := drop (n_consume mr) (buf_reader mr) \<rparr>))"
  by pat_completeness auto
termination
proof (relation "measure (\<lambda>mr. length (buf_reader mr))", goal_cases)
  case 1
  show ?case by simp
next
  case (2 mr)
  then show ?case using n_consume_le[of mr] by simp
qed

declare stream_body.simps [simp del]

declare read_by_ones.simps [simp del]

text \<open>
  Every part that \<open>Part.__init__\<close> creates and the body reader works on satisfies: bytes in
  the residual buffer imply that the counter is positive.
\<close>

definition part_inv :: "part \<Rightarrow> bool" where
  "part_inv p = (buf p = [] \<or> 0 < bytes_read p)"

lemma part_inv_Part: "part_inv (Part\<lparr> header_lines := hl \<rparr>)"
  by (simp add: part_inv_def Part_def)

lemma has_boundary_buf_reader [simp]:
  "has_boundary (mr\<lparr> buf_reader := s \<rparr>) boundary = has_boundary mr boundary"
  by (simp add: has_boundary_def)

text \<open>One read that goes to the stream, for a part that satisfies the invariant.\<close>

lemma PartReader_read_stream:
  assumes hb: "has_boundary mr boundary" and inv: "part_inv p" and lt: "length (buf p) < d"
  shows "PartReader_read d p mr =
     (take d (buf p @ take (n_consume mr) (buf_reader mr)),
      p\<lparr> buf := drop d (buf p @ take (n_consume mr) (buf_reader mr)),
         bytes_read := bytes_read p
            + length (take d (buf p @ take (n_consume mr) (buf_reader mr))) \<rparr>,
      mr\<lparr> buf_reader := drop (n_consume mr) (buf_reader mr) \<rparr>)"
proof (cases "bytes_read p = 0
    \<and> peek_buffer_is_empty_part mr (br_peek BLOCK_SIZE (buf_reader mr))")
  case True
  then have "prefix (dash_boundary mr) (br_peek BLOCK_SIZE (buf_reader mr))"
    using empty_part_prefix[OF hb] by blast
  then have k: "n_consume mr = 0" by (simp add: n_consume_def py_find_prefix)
  have b: "buf p = []" using True inv by (simp add: part_inv_def)
  have "PartReader_read d p mr = ([], p, mr)"
    using True lt by (simp add: PartReader_read_empty_part)
  moreover have "p\<lparr> buf := [], bytes_read := bytes_read p \<rparr> = p" using b by (cases p) simp
  ultimately show ?thesis using k b by simp
next
  case False
  from PartReader_read_fill[OF lt False] show ?thesis .
qed

lemma stream_body_step:
  "take (n_consume mr) (buf_reader mr)
     @ stream_body (mr\<lparr> buf_reader := drop (n_consume mr) (buf_reader mr) \<rparr>)
   = stream_body mr"
proof (cases "n_consume mr = 0")
  case True
  then have "mr\<lparr> buf_reader := drop (n_consume mr) (buf_reader mr) \<rparr> = mr" by simp
  with True show ?thesis by simp
next
  case False
  have "stream_body mr = take (n_consume mr) (buf_reader mr)
     @ stream_body (mr\<lparr> buf_reader := drop (n_consume mr) (buf_reader mr) \<rparr>)"
    using False by (subst stream_body.simps) simp
  then show ?thesis by simp
qed

lemma read_all_body:
  assumes "has_boundary mr boundary" and "part_inv p"
  shows "fst (read_all data p mr) = data @ buf p @ stream_body mr"
  using assms
proof (induction "length (buf p) + length (buf_reader mr)" arbitrary: data p mr
    rule: less_induct)
  case less
  obtain chunk p1 mr1 where r: "PartReader_read BLOCK_SIZE p mr = (chunk, p1, mr1)"
    by (cases "PartReader_read BLOCK_SIZE p mr") auto
  have pos: "0 < BLOCK_SIZE" by (simp add: BLOCK_SIZE_def)
  show ?case
  proof (cases "BLOCK_SIZE \<le> length (buf p)")
    case True
    from PartReader_read_buffered[OF True, of mr] r
    have c: "chunk = take BLOCK_SIZE (buf p)" and p1: "p1 = p\<lparr> buf := drop BLOCK_SIZE (buf p) \<rparr>"
      and m1: "mr1 = mr" by simp_all
    have ne: "chunk \<noteq> []" using c True pos by auto
    have inv1: "part_inv p1" using less.prems(2) p1 by (auto simp: part_inv_def)
    have dec: "length (buf p1) + length (buf_reader mr1) < length (buf p) + length (buf_reader mr)"
      using PartReader_read_measure[OF r] ne by (cases chunk) auto
    have "fst (read_all data p mr) = fst (read_all (data @ chunk) p1 mr1)"
      using r ne by (subst read_all.simps) simp
    also have "\<dots> = (data @ chunk) @ buf p1 @ stream_body mr1"
      using less.hyps[OF dec _ inv1] less.prems(1) m1 by simp
    also have "\<dots> = data @ buf p @ stream_body mr"
      using c p1 m1 by simp
    finally show ?thesis .
  next
    case False
    then have lt: "length (buf p) < BLOCK_SIZE" by simp
    let ?b = "buf p @ take (n_consume mr) (buf_reader mr)"
    from PartReader_read_stream[OF less.prems lt] r
    have "(chunk, p1, mr1) =
      (take BLOCK_SIZE ?b,
       p\<lparr> buf := drop BLOCK_SIZE ?b,
          bytes_read := bytes_read p + length (take BLOCK_SIZE ?b) \<rparr>,
       mr\<lparr> buf_reader := drop (n_consume mr) (buf_reader mr) \<rparr>)"
      by (simp only:)
    then have c: "chunk = take BLOCK_SIZE ?b" and b1: "buf p1 = drop BLOCK_SIZE ?b"
      and br1: "bytes_read p1 = bytes_read p + length chunk"
      and m1: "mr1 = mr\<lparr> buf_reader := drop (n_consume mr) (buf_reader mr) \<rparr>"
      by (simp_all del: take_append drop_append)
    show ?thesis
    proof (cases "chunk = []")
      case True
      with c pos have e: "?b = []" by (auto simp del: take_append)
      then have "n_consume mr = 0" using n_consume_le[of mr] by (cases "buf_reader mr") auto
      then have "stream_body mr = []" by (subst stream_body.simps) simp
      moreover have "fst (read_all data p mr) = data"
        using r True by (subst read_all.simps) simp
      ultimately show ?thesis using e by simp
    next
      case ne: False
      have inv1: "part_inv p1" using br1 ne by (simp add: part_inv_def)
      have hb1: "has_boundary mr1 boundary" using less.prems(1) m1 by simp
      have dec: "length (buf p1) + length (buf_reader mr1)
          < length (buf p) + length (buf_reader mr)"
        using PartReader_read_measure[OF r] ne by (cases chunk) auto
      have "fst (read_all data p mr) = fst (read_all (data @ chunk) p1 mr1)"
        using r ne by (subst read_all.simps) simp
      also have "\<dots> = (data @ chunk) @ buf p1 @ stream_body mr1"
        using less.hyps[OF dec hb1 inv1] by simp
      also have "\<dots> = data @ ?b @ stream_body mr1"
        using c b1 by (simp del: take_append drop_append)
      also have "\<dots> = data @ buf p @ stream_body mr"
        using m1 stream_body_step[of mr] by simp
      finally show ?thesis .
    qed
  qed
qed


lemma read_by_ones_body:
  assumes "has_boundary mr boundary" and "part_inv p" and "\<not> closed p"
  shows "\<exists>p' mr'. read_by_ones data p mr = Inr (data @ buf p @ stream_body mr, p', mr')"
  using assms
proof (induction "length (buf p) + length (buf_reader mr)" arbitrary: data p mr
    rule: less_induct)
  case less
  obtain chunk p1 mr1 where r: "PartReader_read 1 p mr = (chunk, p1, mr1)"
    by (cases "PartReader_read 1 p mr") auto
  have pr: "Part_read (Some 1) p mr = Inr (chunk, p1, mr1)"
    using r less.prems(3) by (simp add: Part_read_def)
  have open1: "\<not> closed p1" using PartReader_read_closed[OF r] less.prems(3) by simp
  show ?case
  proof (cases "1 \<le> length (buf p)")
    case True
    from PartReader_read_buffered[OF True, of mr] r
    have c: "chunk = take 1 (buf p)" and p1: "p1 = p\<lparr> buf := drop 1 (buf p) \<rparr>"
      and m1: "mr1 = mr" by simp_all
    have ne: "chunk \<noteq> []" using c True by (cases "buf p") auto
    have inv1: "part_inv p1" using less.prems(2) p1 by (auto simp: part_inv_def)
    have hb1: "has_boundary mr1 boundary" using less.prems(1) m1 by simp
    have dec: "length (buf p1) + length (buf_reader mr1) < length (buf p) + length (buf_reader mr)"
      using PartReader_read_measure[OF r] ne by (cases chunk) auto
    from less.hyps[OF dec hb1 inv1 open1, of "data @ chunk"] obtain p' mr'
      where rec: "read_by_ones (data @ chunk) p1 mr1
             = Inr ((data @ chunk) @ buf p1 @ stream_body mr1, p', mr')" by blast
    have step: "read_by_ones data p mr = read_by_ones (data @ chunk) p1 mr1"
      using pr ne by (subst read_by_ones.simps) simp
    have "(data @ chunk) @ buf p1 @ stream_body mr1 = data @ buf p @ stream_body mr"
      using c p1 m1 by simp
    with rec step have "read_by_ones data p mr = Inr (data @ buf p @ stream_body mr, p', mr')"
      by (simp only:)
    then show ?thesis by blast
  next
    case False
    then have lt: "length (buf p) < 1" by (cases "buf p") auto
    let ?b = "buf p @ take (n_consume mr) (buf_reader mr)"
    from PartReader_read_stream[OF less.prems(1,2) lt] r
    have "(chunk, p1, mr1) =
      (take 1 ?b,
       p\<lparr> buf := drop 1 ?b, bytes_read := bytes_read p + length (take 1 ?b) \<rparr>,
       mr\<lparr> buf_reader := drop (n_consume mr) (buf_reader mr) \<rparr>)"
      by (simp only:)
    then have c: "chunk = take 1 ?b" and b1: "buf p1 = drop 1 ?b"
      and br1: "bytes_read p1 = bytes_read p + length chunk"
      and m1: "mr1 = mr\<lparr> buf_reader := drop (n_consume mr) (buf_reader mr) \<rparr>"
      by (simp_all del: take_append drop_append)
    show ?thesis
    proof (cases "chunk = []")
      case True
      with c have e: "?b = []" by (cases ?b) (auto simp del: take_append)
      then have "n_consume mr = 0" using n_consume_le[of mr] by (cases "buf_reader mr") auto
      then have "stream_body mr = []" by (subst stream_body.simps) simp
      moreover have "read_by_ones data p mr = Inr (data, p1, mr1)"
        using pr True by (subst read_by_ones.simps) simp
      ultimately show ?thesis using e by simp
    next
      case ne: False
      have inv1: "part_inv p1" using br1 ne by (simp add: part_inv_def)
      have hb1: "has_boundary mr1 boundary" using less.prems(1) m1 by simp
      have dec: "length (buf p1) + length (buf_reader mr1)
          < length (buf p) + length (buf_reader mr)"
        using PartReader_read_measure[OF r] ne by (cases chunk) auto
      from less.hyps[OF dec hb1 inv1 open1, of "data @ chunk"] obtain p' mr'
        where rec: "read_by_ones (data @ chunk) p1 mr1
               = Inr ((data @ chunk) @ buf p1 @ stream_body mr1, p', mr')" by blast
      have step: "read_by_ones data p mr = read_by_ones (data @ chunk) p1 mr1"
        using pr ne by (subst read_by_ones.simps) simp
      have "(data @ chunk) @ buf p1 @ stream_body mr1 = data @ ?b @ stream_body mr1"
        using c b1 by (simp del: take_append drop_append)
      also have "\<dots> = data @ buf p @ stream_body mr"
        using m1 stream_body_step[of mr] by simp
      finally have "read_by_ones data p mr = Inr (data @ buf p @ stream_body mr, p', mr')"
        using rec step by (simp only:)
      then show ?thesis by blast
    qed
  qed
qed

lemma PartReader_read_inv:
  assumes "part_inv p" and r: "PartReader_read d p mr = (n, p', mr')"
  shows "part_inv p'"
proof -
  consider (buffered) "d \<le> length (buf p)"
    | (empty_part) "length (buf p) < d" "bytes_read p = 0"
        "peek_buffer_is_empty_part mr (br_peek BLOCK_SIZE (buf_reader mr))"
    | (fill) "length (buf p) < d"
        "\<not> (bytes_read p = 0
            \<and> peek_buffer_is_empty_part mr (br_peek BLOCK_SIZE (buf_reader mr)))"
    by fastforce
  then show ?thesis
  proof cases
    case buffered
    from PartReader_read_buffered[OF this, of mr] r assms(1) show ?thesis
      by (auto simp: part_inv_def)
  next
    case empty_part
    from PartReader_read_empty_part[OF this] r assms(1) show ?thesis by auto
  next
    case fill
    from PartReader_read_fill[OF this] r fill(1) show ?thesis
      by (auto simp: part_inv_def)
  qed
qed

text \<open>
  C8. For every part as the reader creates it and the body reader leaves it, reading the
  body by \<open>read(1)\<close> calls until one returns nothing and reading it by one \<open>read()\<close>
  give the same bytes (and the same usage error when the part is closed).
\<close>

theorem chunk_size_independence:
  assumes "has_boundary mr boundary" and "part_inv p"
  shows "map_sum id fst (read_by_ones [] p mr) = map_sum id fst (Part_read None p mr)"
proof (cases "closed p")
  case True
  then have "read_by_ones [] p mr = Inl IOError_Part_already_closed"
    by (subst read_by_ones.simps) (simp add: Part_read_def)
  with True show ?thesis by (simp add: Part_read_def)
next
  case False
  from read_by_ones_body[OF assms False, of "[]"] obtain p' mr'
    where "read_by_ones [] p mr = Inr (buf p @ stream_body mr, p', mr')" by auto
  moreover have "fst (read_all [] p mr) = buf p @ stream_body mr"
    using read_all_body[OF assms, of "[]"] by simp
  ultimately show ?thesis using False by (simp add: Part_read_def)
qed

section \<open>The scenario of the specification\<close>

text \<open>
  Boundary \<open>XYZ\<close>; a delimiter line, a header naming the field \<open>a\<close>, a blank line, the
  body \<open>hello\<close>, a delimiter line, a header naming the file field \<open>b\<close> with file name
  \<open>f.bin\<close>, a blank line, the bytes \<open>00 01 02\<close>, and the final boundary line. Every line
  ends with CR LF, and the delimiter lines follow the bodies after a CR LF.
\<close>

definition header_a :: bytes where
  "header_a = ''Content-Disposition: form-data; name='' @ [CHR 0x22] @ ''a'' @ [CHR 0x22]
              @ [CR, LF]"

definition header_b :: bytes where
  "header_b = ''Content-Disposition: form-data; name='' @ [CHR 0x22] @ ''b'' @ [CHR 0x22]
              @ ''; filename='' @ [CHR 0x22] @ ''f.bin'' @ [CHR 0x22] @ [CR, LF]"

definition final_line :: bytes where
  "final_line = ''--XYZ--'' @ [CR, LF]"

definition body_b :: bytes where
  "body_b = [CHR 0x00, CHR 0x01, CHR 0x02] @ [CR, LF] @ final_line"

definition segment_b :: bytes where
  "segment_b = ''--XYZ'' @ [CR, LF] @ header_b @ [CR, LF] @ body_b"

definition body_a :: bytes where
  "body_a = ''hello'' @ [CR, LF] @ segment_b"

definition scenario :: bytes where
  "scenario = ''--XYZ'' @ [CR, LF] @ header_a @ [CR, LF] @ body_a"

text \<open>The parts that \<open>next_part\<close> creates for the two segments.\<close>

definition part_a :: part where
  "part_a = Part\<lparr> header_lines := [header_a] \<rparr>"

definition part_b :: part where
  "part_b = Part\<lparr> header_lines := [header_b] \<rparr>"

text \<open>
  A reader for the boundary \<open>XYZ\<close> whose byte source still holds \<open>s\<close>, which has opened
  \<open>k\<close> parts and whose current part is \<open>cp\<close>.
\<close>

definition reader_at :: "bytes \<Rightarrow> nat \<Rightarrow> part option \<Rightarrow> reader" where
  "reader_at s k cp = (MultipartReader s ''XYZ'')\<lparr> parts_read := k, current_part := cp \<rparr>"

lemma reader_at_0: "MultipartReader s ''XYZ'' = reader_at s 0 None"
  by (simp add: reader_at_def MultipartReader_def)

lemma has_boundary_reader_at: "has_boundary (reader_at s k cp) ''XYZ''"
  by (simp add: reader_at_def has_boundary_def MultipartReader_def)

lemmas scenario_defs = scenario_def body_a_def segment_b_def body_b_def final_line_def
  header_a_def header_b_def part_a_def part_b_def reader_at_def

lemmas eval_defs = MultipartReader_def next_part_def is_final_boundary_def
  is_boundary_delimeter_line_eq startswith_def br_peek_def br_read_def new_part_def
  populate_headers_def Part_def Part_read_def PartReader_read_def fill_buffer_def pull_eq
  Buff_read_def BLOCK_SIZE_def peek_buffer_is_empty_part_def skipLWSPChar_id py_find_def
  Let_def Part_close_def next_part_loop.simps

lemma scenario_first_part:
  "next_part (reader_at scenario 0 None) = Some (NewPart, reader_at body_a 1 (Some part_a))"
  by (simp add: eval_defs scenario_defs)

lemma scenario_second_part:
  "next_part (reader_at body_a 1 (Some part_a))
   = Some (NewPart, reader_at body_b 2 (Some part_b))"
  by (simp add: eval_defs scenario_defs)

lemma scenario_terminal:
  "next_part (reader_at body_b 2 (Some part_b))
   = Some (Terminal, reader_at [] 2 (Some (part_b\<lparr> bytes_read := 5, closed := True \<rparr>)))"
  by (simp add: eval_defs scenario_defs)

lemma scenario_first_body:
  "Part_read None part_a (reader_at body_a 1 (Some part_a))
   = Inr (''hello'' @ [CR, LF], part_a\<lparr> bytes_read := 7 \<rparr>,
          reader_at segment_b 1 (Some part_a))"
  by (simp add: eval_defs scenario_defs)

subsection \<open>Round trip\<close>

text \<open>
  A body that holds the delimiter token inside a line: \<open>a--XYZb\<close>.
\<close>

definition body_e :: bytes where
  "body_e = ''a--XYZb'' @ [CR, LF] @ final_line"

definition embedded :: bytes where
  "embedded = ''--XYZ'' @ [CR, LF] @ header_a @ [CR, LF] @ body_e"

text \<open>
  C1 (the code departs from the claim). On the scenario the first part's \<open>read()\<close>
  returns \<open>hello\<close> followed by the CR LF that stands before the delimiter line: the body
  reader searches for \<open>--XYZ\<close>, not for the newline followed by \<open>--XYZ\<close>. On the stream
  with the body \<open>a--XYZb\<close> the \<open>read()\<close> returns \<open>a\<close> only, and the next \<open>next_part\<close>
  raises on the line \<open>--XYZb\<close>.
\<close>

theorem read_keeps_newline_and_stops_at_token:
  "next_part (MultipartReader scenario ''XYZ'')
     = Some (NewPart, reader_at body_a 1 (Some part_a))
   \<and> Part_read None part_a (reader_at body_a 1 (Some part_a))
     = Inr (''hello'' @ [CR, LF], part_a\<lparr> bytes_read := 7 \<rparr>,
            reader_at segment_b 1 (Some part_a))
   \<and> next_part (MultipartReader embedded ''XYZ'')
     = Some (NewPart, reader_at body_e 1 (Some part_a))
   \<and> Part_read None part_a (reader_at body_e 1 (Some part_a))
     = Inr (''a'', part_a\<lparr> bytes_read := 1 \<rparr>,
            reader_at (''--XYZb'' @ [CR, LF] @ final_line) 1 (Some part_a))
   \<and> next_part (reader_at (''--XYZb'' @ [CR, LF] @ final_line) 1
                  (Some (part_a\<lparr> bytes_read := 1 \<rparr>)))
     = Some (Raised (Exception_Unexpected_line (''--XYZb'' @ [CR, LF])),
             reader_at final_line 1 (Some (part_a\<lparr> bytes_read := 1, closed := True \<rparr>)))"
proof (intro conjI)
  show "next_part (MultipartReader scenario ''XYZ'')
     = Some (NewPart, reader_at body_a 1 (Some part_a))"
    by (simp only: reader_at_0 scenario_first_part)
  show "Part_read None part_a (reader_at body_a 1 (Some part_a))
     = Inr (''hello'' @ [CR, LF], part_a\<lparr> bytes_read := 7 \<rparr>,
            reader_at segment_b 1 (Some part_a))"
    by (rule scenario_first_body)
  show "next_part (MultipartReader embedded ''XYZ'')
     = Some (NewPart, reader_at body_e 1 (Some part_a))"
    by (simp add: eval_defs scenario_defs embedded_def body_e_def)
  show "Part_read None part_a (reader_at body_e 1 (Some part_a))
     = Inr (''a'', part_a\<lparr> bytes_read := 1 \<rparr>,
            reader_at (''--XYZb'' @ [CR, LF] @ final_line) 1 (Some part_a))"
    by (simp add: eval_defs scenario_defs body_e_def)
  show "next_part (reader_at (''--XYZb'' @ [CR, LF] @ final_line) 1
                  (Some (part_a\<lparr> bytes_read := 1 \<rparr>)))
     = Some (Raised (Exception_Unexpected_line (''--XYZb'' @ [CR, LF])),
             reader_at final_line 1 (Some (part_a\<lparr> bytes_read := 1, closed := True \<rparr>)))"
    by (simp add: eval_defs scenario_defs)
qed

subsection \<open>Calling next_part again after the final boundary\<close>

text \<open>
  C2 (the code departs from the claim). On the scenario the first two calls return the
  two parts and the third returns \<open>None\<close>. The reader still holds the second part, which
  the third call closed; the fourth call closes it again and so raises
  \<open>IOError("Part already closed")\<close>.
\<close>

theorem next_part_after_terminal_raises:
  "next_part (MultipartReader scenario ''XYZ'')
     = Some (NewPart, reader_at body_a 1 (Some part_a))
   \<and> next_part (reader_at body_a 1 (Some part_a))
     = Some (NewPart, reader_at body_b 2 (Some part_b))
   \<and> next_part (reader_at body_b 2 (Some part_b))
     = Some (Terminal, reader_at [] 2 (Some (part_b\<lparr> bytes_read := 5, closed := True \<rparr>)))
   \<and> next_part (reader_at [] 2 (Some (part_b\<lparr> bytes_read := 5, closed := True \<rparr>)))
     = Some (Raised IOError_Part_already_closed,
             reader_at [] 2 (Some (part_b\<lparr> bytes_read := 5, closed := True \<rparr>)))"
proof (intro conjI)
  show "next_part (MultipartReader scenario ''XYZ'')
     = Some (NewPart, reader_at body_a 1 (Some part_a))"
    by (simp only: reader_at_0 scenario_first_part)
  show "next_part (reader_at body_a 1 (Some part_a))
     = Some (NewPart, reader_at body_b 2 (Some part_b))"
    by (rule scenario_second_part)
  show "next_part (reader_at body_b 2 (Some part_b))
     = Some (Terminal, reader_at [] 2 (Some (part_b\<lparr> bytes_read := 5, closed := True \<rparr>)))"
    by (rule scenario_terminal)
  show "next_part (reader_at [] 2 (Some (part_b\<lparr> bytes_read := 5, closed := True \<rparr>)))
     = Some (Raised IOError_Part_already_closed,
             reader_at [] 2 (Some (part_b\<lparr> bytes_read := 5, closed := True \<rparr>)))"
    by (simp add: eval_defs scenario_defs)
qed

subsection \<open>Closing a part twice\<close>

text \<open>
  C3, the claim as stated fails: the first \<open>close()\<close> of the scenario's first part
  returns, the second raises.
\<close>

theorem close_twice_raises:
  "Part_close part_a (reader_at body_a 1 (Some part_a))
     = Inr (part_a\<lparr> bytes_read := 7, closed := True \<rparr>, reader_at segment_b 1 (Some part_a))
   \<and> Part_close (part_a\<lparr> bytes_read := 7, closed := True \<rparr>)
        (reader_at segment_b 1 (Some part_a))
     = Inl IOError_Part_already_closed"
  by (simp add: eval_defs scenario_defs)

theorem close_once_then_usage_error_witness:
  "\<not> closed part_a
   \<and> (\<exists>p' mr'. Part_close part_a (reader_at body_a 1 (Some part_a)) = Inr (p', mr')
         \<and> closed p' \<and> Part_close p' mr' = Inl IOError_Part_already_closed)
   \<and> closed (part_a\<lparr> closed := True \<rparr>)
   \<and> Part_close (part_a\<lparr> closed := True \<rparr>) (reader_at body_a 1 (Some part_a))
       = Inl IOError_Part_already_closed"
  using close_once_then_usage_error[of part_a "reader_at body_a 1 (Some part_a)"]
    close_once_then_usage_error[of "part_a\<lparr> closed := True \<rparr>"
      "reader_at body_a 1 (Some part_a)"]
  by (simp add: part_a_def Part_def)

subsection \<open>A stream with LF-only line ends\<close>

definition lf_stream :: bytes where
  "lf_stream = ''--XYZ'' @ [LF] @ ''n: a'' @ [LF] @ [LF] @ ''hello'' @ [LF]
               @ ''--XYZ--'' @ [LF]"

text \<open>
  C5 (the code departs from the claim). The first line of the stream is the delimiter
  token followed by a single LF. The test that would shrink the newline convention
  compares an \<open>int\<close> with a \<open>str\<close> and is never true: the line is not taken for a
  delimiter, the reader is unchanged, and \<open>next_part\<close> skips every line up to the final
  boundary and returns \<open>None\<close> without having opened a part.
\<close>

theorem lf_only_delimiter_not_recognised:
  "is_boundary_delimeter_line (MultipartReader lf_stream ''XYZ'') (''--XYZ'' @ [LF])
     = (False, MultipartReader lf_stream ''XYZ'')
   \<and> nl (MultipartReader lf_stream ''XYZ'') = [CR, LF]
   \<and> next_part (MultipartReader lf_stream ''XYZ'') = Some (Terminal, reader_at [] 0 None)"
  by (simp add: is_boundary_delimeter_line_def py_in_def byte_at0_def eval_defs reader_at_def
      lf_stream_def)

subsection \<open>The read counter\<close>

text \<open>
  C9 (the code departs from the claim). Two calls \<open>read(1)\<close> on the scenario's first
  part return \<open>h\<close> and \<open>e\<close>. The first goes to the stream and counts its byte; the
  second is served from the residual buffer and leaves \<open>bytes_read\<close> at 1.
\<close>

theorem bytes_read_misses_buffered_read:
  "Part_read (Some 1) part_a (reader_at body_a 1 (Some part_a))
     = Inr (''h'', part_a\<lparr> buf := ''ello'' @ [CR, LF], bytes_read := 1 \<rparr>,
            reader_at segment_b 1 (Some part_a))
   \<and> Part_read (Some 1) (part_a\<lparr> buf := ''ello'' @ [CR, LF], bytes_read := 1 \<rparr>)
        (reader_at segment_b 1 (Some part_a))
     = Inr (''e'', part_a\<lparr> buf := ''llo'' @ [CR, LF], bytes_read := 1 \<rparr>,
            reader_at segment_b 1 (Some part_a))"
  by (simp add: eval_defs scenario_defs)

subsection \<open>The end of the stream before any delimiter line\<close>

lemma next_part_loop_empty_stream:
  assumes "next_part_loop e mr = Some y"
  shows "e \<or> mr \<noteq> reader_at [] 0 None"
proof (rule next_part_loop.raw_induct[
      where P = "\<lambda>e mr y. e \<or> mr \<noteq> reader_at [] 0 None", OF _ assms])
  fix f e' mr' y'
  assume IH: "\<And>b m z. f b m = Some z \<Longrightarrow> b \<or> m \<noteq> reader_at [] 0 None"
    and step: "(case br_readline (buf_reader mr') of
      (line, s') \<Rightarrow>
        let mr1 = mr'\<lparr>buf_reader := s'\<rparr>; is_EOF = br_peek 1 (buf_reader mr1)
        in if length is_EOF = 0 \<and> is_final_boundary mr1 line
           then Some (Terminal, mr1)
           else case is_boundary_delimeter_line mr1 line of
                (is_delim, mr2) \<Rightarrow>
                  if is_delim
                  then case new_part (mr2\<lparr>parts_read := parts_read mr2 + 1\<rparr>) of
                       (bp, mr3) \<Rightarrow> Some (NewPart, mr3\<lparr>current_part := Some bp\<rparr>)
                  else if is_final_boundary mr2 line then Some (Terminal, mr2)
                  else if e' then Some (Raised (Exception_expecting_a_new_Part line), mr2)
                  else if parts_read mr2 = 0 then f e' mr2
                  else if line = nl mr2 then f True mr2
                  else Some (Raised (Exception_Unexpected_line line), mr2)) = Some y'"
  show "e' \<or> mr' \<noteq> reader_at [] 0 None"
  proof (rule ccontr)
    assume "\<not> (e' \<or> mr' \<noteq> reader_at [] 0 None)"
    then have e: "\<not> e'" and eq: "mr' = reader_at [] 0 None" by simp_all
    with step have "f False (reader_at [] 0 None) = Some y'"
      by (simp add: reader_at_def eval_defs)
    from IH[OF this] show False by simp
  qed
qed

text \<open>
  C10 (the code departs from the claim). On the empty stream \<open>readline\<close> returns the
  empty bytes, which is no boundary line; no part has been read, so the loop continues,
  and the next turn is the same. The call never returns.
\<close>

theorem next_part_loops_on_empty_stream:
  "next_part (MultipartReader [] ''XYZ'') = None"
proof (cases "next_part_loop False (reader_at [] 0 None)")
  case None
  then show ?thesis by (simp add: next_part_def reader_at_0) (simp add: reader_at_def)
next
  case (Some y)
  from next_part_loop_empty_stream[OF this] show ?thesis by simp
qed

subsection \<open>Instances of the general theorems\<close>

theorem empty_body_read_witness:
  "\<not> closed part_a \<and> buf part_a = [] \<and> bytes_read part_a = 0
   \<and> startswith (buf_reader (reader_at final_line 1 (Some part_a)))
        (dash_boundary (reader_at final_line 1 (Some part_a)))
   \<and> Part_read None part_a (reader_at final_line 1 (Some part_a))
     = Inr ([], part_a, reader_at final_line 1 (Some part_a))"
  using empty_body_read[of part_a "reader_at final_line 1 (Some part_a)"]
  by (simp add: scenario_defs Part_def MultipartReader_def startswith_def)

theorem safety_margin_consumption_witness:
  "has_boundary (reader_at body_a 1 (Some part_a)) ''XYZ''
   \<and> length (buf part_a) < 1
   \<and> PartReader_read 1 part_a (reader_at body_a 1 (Some part_a))
     = (''h'', part_a\<lparr> buf := ''ello'' @ [CR, LF], bytes_read := 1 \<rparr>,
        reader_at segment_b 1 (Some part_a))
   \<and> py_find (br_peek BLOCK_SIZE (buf_reader (reader_at body_a 1 (Some part_a))))
        (dash_boundary (reader_at body_a 1 (Some part_a))) = 7
   \<and> consumed_into_buffer 7 part_a (reader_at body_a 1 (Some part_a)) ''h''
        (part_a\<lparr> buf := ''ello'' @ [CR, LF], bytes_read := 1 \<rparr>)
        (reader_at segment_b 1 (Some part_a))
   \<and> token_at (reader_at body_a 1 (Some part_a)) 7
   \<and> has_boundary (reader_at ''hello world'' 1 (Some part_a)) ''XYZ''
   \<and> PartReader_read 1 part_a (reader_at ''hello world'' 1 (Some part_a))
     = (''h'', part_a\<lparr> buf := ''ello '', bytes_read := 1 \<rparr>,
        reader_at ''world'' 1 (Some part_a))
   \<and> py_find (br_peek BLOCK_SIZE (buf_reader (reader_at ''hello world'' 1 (Some part_a))))
        (dash_boundary (reader_at ''hello world'' 1 (Some part_a))) = - 1
   \<and> consumed_into_buffer 6 part_a (reader_at ''hello world'' 1 (Some part_a)) ''h''
        (part_a\<lparr> buf := ''ello '', bytes_read := 1 \<rparr>)
        (reader_at ''world'' 1 (Some part_a))"
  using safety_margin_consumption[of "reader_at body_a 1 (Some part_a)" "''XYZ''" part_a 1
      "''h''" "part_a\<lparr> buf := ''ello'' @ [CR, LF], bytes_read := 1 \<rparr>"
      "reader_at segment_b 1 (Some part_a)"]
    safety_margin_consumption[of "reader_at ''hello world'' 1 (Some part_a)" "''XYZ''" part_a 1
      "''h''" "part_a\<lparr> buf := ''ello '', bytes_read := 1 \<rparr>"
      "reader_at ''world'' 1 (Some part_a)"]
  by (simp add: eval_defs scenario_defs has_boundary_def consumed_into_buffer_def token_at_def)

theorem chunk_size_independence_witness:
  "has_boundary (reader_at body_a 1 (Some part_a)) ''XYZ''
   \<and> part_inv part_a
   \<and> map_sum id fst (read_by_ones [] part_a (reader_at body_a 1 (Some part_a)))
     = Inr (''hello'' @ [CR, LF])
   \<and> map_sum id fst (Part_read None part_a (reader_at body_a 1 (Some part_a)))
     = Inr (''hello'' @ [CR, LF])"
  using chunk_size_independence[of "reader_at body_a 1 (Some part_a)" "''XYZ''" part_a]
    scenario_first_body has_boundary_reader_at[of body_a 1 "Some part_a"]
  by (simp add: part_inv_def part_a_def Part_def)

end
